theory Spec2Isabelle
  imports Main "HOL-Library.Sublist"
begin

section \<open>The fragment of Python's \<open>re\<close> and \<open>str\<close> that fix\_layers.py uses\<close>

text \<open>
  \<open>fix_layers.py\<close> is one function, \<open>fix_layer_file\<close>: it reads a file, threads its text
  through nine \<open>re.sub\<close> calls, one \<open>re.search\<close> followed by \<open>str.replace\<close>, and writes the
  text back. The semantics of those library calls is what decides every property of the
  script, so it is modelled here first: a backtracking matcher over the pattern
  constructs that occur in the script's patterns, the parser of replacement templates,
  and the scanning loops of \<open>re.sub\<close>, \<open>re.search\<close> and \<open>str.replace\<close>.

  Text is a \<open>string\<close>, a list of 8-bit characters: the model covers texts whose code
  points are below 256. None of the script's patterns uses an anchor, a word boundary or
  a look-around, so whether a pattern matches at a position depends only on the text from
  that position on; the matcher therefore takes the remaining text.
\<close>

subsection \<open>Patterns and the backtracking matcher\<close>

text \<open>
  The character classes of the script's patterns: \<open>\s\<close>, the dot under \<open>re.DOTALL\<close>
  (every character), and a negated one-character set such as \<open>[^;]\<close>; the dot without
  \<open>re.DOTALL\<close> is the negated set of the newline. For a \<open>str\<close> pattern \<open>\s\<close> matches the
  Unicode whitespace; below 256 these are the code points 9 to 13, 28 to 32, 133 and 160.
\<close>

datatype cclass = CSpace | CAny | CNot char

definition dot :: cclass where
  "dot = CNot (CHR 0x0A)"

definition is_space :: "char \<Rightarrow> bool" where
  "is_space c = (let n = (of_char c :: nat) in
     (9 \<le> n \<and> n \<le> 13) \<or> (28 \<le> n \<and> n \<le> 32) \<or> n = 133 \<or> n = 160)"

fun in_class :: "cclass \<Rightarrow> char \<Rightarrow> bool" where
  "in_class CSpace c = is_space c"
| "in_class CAny c = True"
| "in_class (CNot x) c = (c \<noteq> x)"

text \<open>
  A pattern is a sequence of items: a literal character, one character of a class, a
  greedy star, a lazy star or a greedy plus of a character class, and the parentheses of
  a capturing group. (In the script a quantifier is only ever applied to a single
  character class.)
\<close>

datatype rx =
  RChar char | RClass cclass | RStar cclass | RStarLazy cclass | RPlus cclass | ROpen | RClose

text \<open>
  A successful match is recorded as the characters it consumed, with marks where
  capturing groups open and close.
\<close>

datatype mtok = MChar char | MOpen | MClose

text \<open>
  \<open>rx_match p s\<close> matches \<open>p\<close> at the start of \<open>s\<close> with the priorities of a backtracking
  engine: a greedy quantifier first tries to take one more character and falls back to
  the rest of the pattern, a lazy one first tries the rest of the pattern and only then
  takes one more character.
\<close>

fun rx_match :: "rx list \<Rightarrow> string \<Rightarrow> mtok list option" where
  "rx_match [] s = Some []"
| "rx_match (RChar c # r) [] = None"
| "rx_match (RChar c # r) (x # xs) =
     (if x = c then map_option ((#) (MChar x)) (rx_match r xs) else None)"
| "rx_match (RClass k # r) [] = None"
| "rx_match (RClass k # r) (x # xs) =
     (if in_class k x then map_option ((#) (MChar x)) (rx_match r xs) else None)"
| "rx_match (ROpen # r) s = map_option ((#) MOpen) (rx_match r s)"
| "rx_match (RClose # r) s = map_option ((#) MClose) (rx_match r s)"
| "rx_match (RStar k # r) [] = rx_match r []"
| "rx_match (RStar k # r) (x # xs) =
     (if in_class k x
      then (case rx_match (RStar k # r) xs of
              Some m \<Rightarrow> Some (MChar x # m)
            | None \<Rightarrow> rx_match r (x # xs))
      else rx_match r (x # xs))"
| "rx_match (RStarLazy k # r) [] = rx_match r []"
| "rx_match (RStarLazy k # r) (x # xs) =
     (case rx_match r (x # xs) of
        Some m \<Rightarrow> Some m
      | None \<Rightarrow>
          (if in_class k x
           then map_option ((#) (MChar x)) (rx_match (RStarLazy k # r) xs)
           else None))"
| "rx_match (RPlus k # r) [] = None"
| "rx_match (RPlus k # r) (x # xs) =
     (if in_class k x then map_option ((#) (MChar x)) (rx_match (RStar k # r) xs) else None)"

text \<open>\<open>matched_text m\<close> is \<open>m.group(0)\<close>; \<open>group_text k m\<close> is \<open>m.group(k)\<close>.\<close>

fun matched_text :: "mtok list \<Rightarrow> string" where
  "matched_text [] = []"
| "matched_text (MChar c # m) = c # matched_text m"
| "matched_text (MOpen # m) = matched_text m"
| "matched_text (MClose # m) = matched_text m"

fun group_body :: "nat \<Rightarrow> mtok list \<Rightarrow> string" where
  "group_body d [] = []"
| "group_body d (MChar c # m) = c # group_body d m"
| "group_body d (MOpen # m) = group_body (Suc d) m"
| "group_body 0 (MClose # m) = []"
| "group_body (Suc d) (MClose # m) = group_body d m"

fun group_text :: "nat \<Rightarrow> mtok list \<Rightarrow> string" where
  "group_text 0 m = matched_text m"
| "group_text (Suc k) [] = []"
| "group_text (Suc 0) (MOpen # m) = group_body 0 m"
| "group_text (Suc (Suc k)) (MOpen # m) = group_text (Suc k) m"
| "group_text (Suc k) (MChar c # m) = group_text (Suc k) m"
| "group_text (Suc k) (MClose # m) = group_text (Suc k) m"

definition rx_groups :: "rx list \<Rightarrow> nat" where
  "rx_groups p = length (filter (\<lambda>i. i = ROpen) p)"

definition lit :: "string \<Rightarrow> rx list" where
  "lit s = map RChar s"

subsection \<open>Replacement templates\<close>

text \<open>
  A replacement string that contains a backslash is compiled by \<open>re\<close> before the text is
  scanned, and compilation can fail: \<open>re.sub\<close> then raises whether or not the pattern
  occurs in the text. The parser below follows \<open>parse_template\<close> of CPython 3.12:
  \<open>\g<n>\<close> and \<open>\1\<close> to \<open>\99\<close> are group references (checked against the number of
  groups of the pattern), \<open>\0\<close> and three octal digits are octal escapes, the usual letter
  escapes give control characters, any other ASCII letter is an error, and a backslash
  before any other character stays in the output together with that character. A group
  name in \<open>\g<...>\<close> is accepted when it is a run of ASCII digits; the script's patterns
  have no named groups, so every other name is an error. (Up to CPython 3.11 a few more
  spellings of a number, such as a signed one, were accepted with a deprecation warning.)
  The exceptions that the compilation can raise are not told apart.
\<close>

datatype error = ReplTemplateError | OpenForReadingError

datatype titem = TLit char | TGroup nat

definition backslash :: char where
  "backslash = CHR 0x5C"

definition is_digit :: "char \<Rightarrow> bool" where
  "is_digit c = (let n = (of_char c :: nat) in 48 \<le> n \<and> n \<le> 57)"

definition is_octdigit :: "char \<Rightarrow> bool" where
  "is_octdigit c = (let n = (of_char c :: nat) in 48 \<le> n \<and> n \<le> 55)"

definition is_ascii_letter :: "char \<Rightarrow> bool" where
  "is_ascii_letter c = (let n = (of_char c :: nat) in
     (65 \<le> n \<and> n \<le> 90) \<or> (97 \<le> n \<and> n \<le> 122))"

definition digit_val :: "char \<Rightarrow> nat" where
  "digit_val c = of_char c - 48"

fun decimal_val :: "nat \<Rightarrow> string \<Rightarrow> nat" where
  "decimal_val acc [] = acc"
| "decimal_val acc (c # cs) = decimal_val (10 * acc + digit_val c) cs"

definition letter_escape :: "char \<Rightarrow> char option" where
  "letter_escape c =
     (if c = CHR ''a'' then Some (CHR 0x07)
      else if c = CHR ''b'' then Some (CHR 0x08)
      else if c = CHR ''f'' then Some (CHR 0x0C)
      else if c = CHR ''n'' then Some (CHR 0x0A)
      else if c = CHR ''r'' then Some (CHR 0x0D)
      else if c = CHR ''t'' then Some (CHR 0x09)
      else if c = CHR ''v'' then Some (CHR 0x0B)
      else if c = backslash then Some backslash
      else None)"

fun octal_val :: "nat \<Rightarrow> string \<Rightarrow> nat" where
  "octal_val acc [] = acc"
| "octal_val acc (c # cs) = octal_val (8 * acc + digit_val c) cs"

text \<open>
  \<open>parse_escape groups cs\<close> reads one escape, \<open>cs\<close> being the text after the backslash:
  it gives the template items of the escape and the number of characters of \<open>cs\<close> that
  belong to it.
\<close>

definition group_ref :: "nat \<Rightarrow> nat \<Rightarrow> nat \<Rightarrow> error + (titem list \<times> nat)" where
  "group_ref groups index used =
     (if index > groups then Inl ReplTemplateError else Inr ([TGroup index], used))"

fun parse_escape :: "nat \<Rightarrow> string \<Rightarrow> error + (titem list \<times> nat)" where
  "parse_escape groups [] = Inl ReplTemplateError"
| "parse_escape groups (e # rest) =
     (if e = CHR ''g'' then
        (case rest of
           [] \<Rightarrow> Inl ReplTemplateError
         | b # rest1 \<Rightarrow>
             let name = takeWhile (\<lambda>x. x \<noteq> CHR ''>'') rest1;
                 after = dropWhile (\<lambda>x. x \<noteq> CHR ''>'') rest1
             in if b \<noteq> CHR ''<'' \<or> name = [] \<or> after = [] \<or> \<not> list_all is_digit name
                then Inl ReplTemplateError
                else group_ref groups (decimal_val 0 name) (length name + 3))
      else if e = CHR ''0'' then
        (let ds = takeWhile is_octdigit (take 2 rest)
         in Inr ([TLit (char_of (octal_val 0 ds mod 256))], length ds + 1))
      else if is_digit e then
        (case rest of
           [] \<Rightarrow> group_ref groups (digit_val e) 1
         | d2 # rest1 \<Rightarrow>
             if is_digit d2 then
               (case rest1 of
                  [] \<Rightarrow> group_ref groups (decimal_val 0 [e, d2]) 2
                | d3 # rest2 \<Rightarrow>
                    if is_octdigit e \<and> is_octdigit d2 \<and> is_octdigit d3 then
                      (if octal_val 0 [e, d2, d3] > 255 then Inl ReplTemplateError
                       else Inr ([TLit (char_of (octal_val 0 [e, d2, d3]))], 3))
                    else group_ref groups (decimal_val 0 [e, d2]) 2)
             else group_ref groups (digit_val e) 1)
      else
        (case letter_escape e of
           Some c \<Rightarrow> Inr ([TLit c], 1)
         | None \<Rightarrow>
             if is_ascii_letter e then Inl ReplTemplateError
             else Inr ([TLit backslash, TLit e], 1)))"

fun parse_template :: "nat \<Rightarrow> string \<Rightarrow> error + titem list" where
  "parse_template groups [] = Inr []"
| "parse_template groups (c # cs) =
     (if c \<noteq> backslash then
        (case parse_template groups cs of
           Inl e \<Rightarrow> Inl e
         | Inr items \<Rightarrow> Inr (TLit c # items))
      else
        (case parse_escape groups cs of
           Inl e \<Rightarrow> Inl e
         | Inr (items, used) \<Rightarrow>
             (case parse_template groups (drop used cs) of
                Inl e \<Rightarrow> Inl e
              | Inr more \<Rightarrow> Inr (items @ more))))"

text \<open>Expanding a compiled template against a match, as \<open>expand_template\<close> does.\<close>

fun expand_item :: "mtok list \<Rightarrow> titem \<Rightarrow> string" where
  "expand_item m (TLit c) = [c]"
| "expand_item m (TGroup k) = group_text k m"

definition expand_template :: "titem list \<Rightarrow> mtok list \<Rightarrow> string" where
  "expand_template t m = concat (map (expand_item m) t)"

subsection \<open>The scanning loops: \<open>re.sub\<close>, \<open>re.search\<close>, \<open>str.replace\<close>\<close>

text \<open>
  \<open>re.sub\<close> tries the pattern at each position from left to right. Where it matches, the
  expanded template is emitted and the scan continues behind the match; where it does
  not, the character is copied. An empty match emits the template and then copies the
  character. (No pattern of the script can match the empty string.)
\<close>

fun sub_scan :: "rx list \<Rightarrow> titem list \<Rightarrow> string \<Rightarrow> string" where
  "sub_scan p t [] = (case rx_match p [] of None \<Rightarrow> [] | Some m \<Rightarrow> expand_template t m)"
| "sub_scan p t (c # cs) =
     (case rx_match p (c # cs) of
        None \<Rightarrow> c # sub_scan p t cs
      | Some m \<Rightarrow>
          expand_template t m @
          (if matched_text m = [] then c # sub_scan p t cs
           else sub_scan p t (drop (length (matched_text m) - 1) cs)))"

definition re_sub :: "rx list \<Rightarrow> string \<Rightarrow> string \<Rightarrow> error + string" where
  "re_sub p repl s =
     (case parse_template (rx_groups p) repl of
        Inl e \<Rightarrow> Inl e
      | Inr t \<Rightarrow> Inr (sub_scan p t s))"

text \<open>\<open>re.search\<close>: the match at the leftmost position where the pattern matches.\<close>

fun re_search :: "rx list \<Rightarrow> string \<Rightarrow> mtok list option" where
  "re_search p [] = rx_match p []"
| "re_search p (c # cs) =
     (case rx_match p (c # cs) of
        Some m \<Rightarrow> Some m
      | None \<Rightarrow> re_search p cs)"

text \<open>
  \<open>str.replace(old, new)\<close> replaces every occurrence of \<open>old\<close>, found from left to right
  without overlaps; for an empty \<open>old\<close> it puts \<open>new\<close> before every character and at the end.
\<close>

fun str_replace :: "string \<Rightarrow> string \<Rightarrow> string \<Rightarrow> string" where
  "str_replace old new [] = (if old = [] then new else [])"
| "str_replace old new (c # cs) =
     (if old = [] then new @ c # str_replace old new cs
      else if prefix old (c # cs) then new @ str_replace old new (drop (length old - 1) cs)
      else c # str_replace old new cs)"

text \<open>\<open>str_contains needle s\<close> is Python's \<open>needle in s\<close>.\<close>

fun str_contains :: "string \<Rightarrow> string \<Rightarrow> bool" where
  "str_contains needle [] = (needle = [])"
| "str_contains needle (c # cs) = (prefix needle (c # cs) \<or> str_contains needle cs)"

section \<open>The rewrite rules of \<open>fix_layer_file\<close>\<close>

text \<open>
  Each \<open>re.sub\<close> call of the script is a pattern and a replacement string. The patterns
  are transcribed item by item; \<open>lit\<close> stands for a run of literal characters (in the
  source these are written with the regex escapes \<open>\(\<close>, \<open>\.\<close>, \<open>\?\<close>, \<open>\[\<close>, \<open>\{\<close>, \<open>\n\<close>).
\<close>

subsection \<open>Remove unused imports\<close>

text \<open>
  \<^verbatim>\<open>re.sub(r"import '../models/translation_result\.dart';\n", "", content)\<close>
  \<^verbatim>\<open>re.sub(r"import '../utils/exceptions\.dart';\n", "", content)\<close>

  The two dots after the apostrophe are not escaped in the source: each matches any
  character but a newline.
\<close>

definition pat_import_result :: "rx list" where
  "pat_import_result =
     lit (''import '' @ [CHR 0x27]) @ [RClass dot, RClass dot] @
     lit (''/models/translation_result.dart'' @ [CHR 0x27] @ '';\<newline>'')"

definition pat_import_exceptions :: "rx list" where
  "pat_import_exceptions =
     lit (''import '' @ [CHR 0x27]) @ [RClass dot, RClass dot] @
     lit (''/utils/exceptions.dart'' @ [CHR 0x27] @ '';\<newline>'')"

subsection \<open>Add description getter\<close>

text \<open>
  The pattern is the literal anchor (the name getter followed by the priority getter)
  inside one capturing group. The replacement is an f-string: the description and the
  priority label are pasted into it as they are, and the result is handed to \<open>re.sub\<close> as
  a replacement template. The parameter \<open>layer_name\<close> of \<open>fix_layer_file\<close> is not used
  anywhere in the function.
\<close>

definition description_anchor :: string where
  "description_anchor =
     ''@override\<newline>'' @
     ''  String get name => layerName;\<newline>'' @
     ''\<newline>'' @
     ''  @override\<newline>'' @
     ''  int get priority => layerPriority;''"

definition pat_description :: "rx list" where
  "pat_description = [ROpen] @ lit description_anchor @ [RClose]"

definition repl_description :: "string \<Rightarrow> string \<Rightarrow> string" where
  "repl_description layer_description layer_priority =
     ''@override\<newline>'' @
     ''  String get name => layerName;\<newline>'' @
     ''\<newline>'' @
     ''  @override\<newline>'' @
     ''  String get description => '' @ [CHR 0x27] @
     layer_description @
     [CHR 0x27] @ '';\<newline>'' @
     ''\<newline>'' @
     ''  @override\<newline>'' @
     ''  LayerPriority get priority => LayerPriority.'' @
     layer_priority @ '';''"

subsection \<open>Fix canHandle and process method signatures\<close>

definition old_canHandle :: string where
  "old_canHandle = ''bool canHandle(TranslationContext context)''"

definition new_canHandle :: string where
  "new_canHandle = ''bool canHandle(String text, TranslationContext context)''"

definition pat_canHandle :: "rx list" where
  "pat_canHandle = lit old_canHandle"

definition old_process :: string where
  "old_process = ''Future<LayerResult> process(TranslationContext context)''"

definition new_process :: string where
  "new_process = ''Future<LayerResult> process(String text, TranslationContext context)''"

definition pat_process :: "rx list" where
  "pat_process = lit old_process"

subsection \<open>Fix LayerDebugInfo creation\<close>

text \<open>
  \<^verbatim>\<open>r"final debugInfo = LayerDebugInfo\(\s*layerName: name,\s*startTime: DateTime\.now\(\),\s*\);"\<close>
  (the flags \<open>re.MULTILINE | re.DOTALL\<close> of this call change nothing: the pattern has no
  \<open>^\<close>, \<open>$\<close> or unescaped dot).
\<close>

definition pat_debugInfo :: "rx list" where
  "pat_debugInfo =
     lit ''final debugInfo = LayerDebugInfo('' @ [RStar CSpace] @
     lit ''layerName: name,'' @ [RStar CSpace] @
     lit ''startTime: DateTime.now(),'' @ [RStar CSpace] @
     lit '');''"

definition repl_debugInfo :: string where
  "repl_debugInfo = ''final startTime = DateTime.now();''"

subsection \<open>Fix text processing logic\<close>

definition pat_currentText :: "rx list" where
  "pat_currentText =
     lit (''String currentText = context.translatedText ?? '' @ [CHR 0x27, CHR 0x27] @ '';'')"

definition repl_currentText :: string where
  "repl_currentText = ''String currentText = context.translatedText ?? text;''"

subsection \<open>Fix \_createResult calls\<close>

text \<open>
  \<^verbatim>\<open>r"return _createResult\(false, context, stopwatch, debugInfo, '([^']+)'\);"\<close> replaced by
  \<^verbatim>\<open>r"return _createResult(text, false, stopwatch, startTime, '\1');"\<close>
\<close>

definition old_call_head :: string where
  "old_call_head = ''return _createResult(false, context, stopwatch, debugInfo, '' @ [CHR 0x27]"

definition call_tail :: string where
  "call_tail = [CHR 0x27] @ '');''"

definition pat_createResult_call :: "rx list" where
  "pat_createResult_call =
     lit old_call_head @ [ROpen, RPlus (CNot (CHR 0x27)), RClose] @ lit call_tail"

definition new_call_head :: string where
  "new_call_head = ''return _createResult(text, false, stopwatch, startTime, '' @ [CHR 0x27]"

definition repl_createResult_call :: string where
  "repl_createResult_call = new_call_head @ [backslash, CHR ''1''] @ call_tail"

subsection \<open>Replace debugInfo.details usage\<close>

text \<open>
  \<^verbatim>\<open>r"debugInfo\.details\['([^']+)'\] = ([^;]+);"\<close> replaced by
  \<^verbatim>\<open>r"// \1: \2 (moved to additionalInfo)"\<close>
\<close>

definition pat_details :: "rx list" where
  "pat_details =
     lit (''debugInfo.details['' @ [CHR 0x27]) @ [ROpen, RPlus (CNot (CHR 0x27)), RClose] @
     lit ([CHR 0x27] @ ''] = '') @ [ROpen, RPlus (CNot (CHR '';'')), RClose] @ lit '';''"

definition repl_details :: string where
  "repl_details =
     ''// '' @ [backslash, CHR ''1''] @ '': '' @ [backslash, CHR ''2''] @
     '' (moved to additionalInfo)''"

subsection \<open>Fix the main \_createResult method\<close>

text \<open>
  \<^verbatim>\<open>re.search(r"LayerResult _createResult\(\s*.*?\s*\) \{.*?\}", content, re.MULTILINE | re.DOTALL)\<close>

  When the search finds a match, \<open>content.replace(old_create_result.group(0),
  new_create_result)\<close> replaces every occurrence of the matched text.
\<close>

definition method_head :: string where
  "method_head = ''LayerResult _createResult(''"

definition pat_createResult_method :: "rx list" where
  "pat_createResult_method =
     lit method_head @ [RStar CSpace, RStarLazy CAny, RStar CSpace] @
     lit '') {'' @ [RStarLazy CAny] @ lit ''}''"

definition new_create_result :: string where
  "new_create_result =
     ''LayerResult _createResult(\<newline>'' @
     ''    String processedText,\<newline>'' @
     ''    bool success, \<newline>'' @
     ''    Stopwatch stopwatch, \<newline>'' @
     ''    DateTime startTime,\<newline>'' @
     ''    [String? error,\<newline>'' @
     ''    Map<String, dynamic>? additionalInfo]\<newline>'' @
     ''  ) {\<newline>'' @
     ''    stopwatch.stop();\<newline>'' @
     ''    \<newline>'' @
     ''    final debugInfo = LayerDebugInfo(\<newline>'' @
     ''      layerName: name,\<newline>'' @
     ''      processingTimeMs: stopwatch.elapsedMilliseconds,\<newline>'' @
     ''      isSuccessful: success,\<newline>'' @
     ''      hasError: error != null,\<newline>'' @
     ''      errorMessage: error,\<newline>'' @
     ''      additionalInfo: additionalInfo ?? {},\<newline>'' @
     ''    );\<newline>'' @
     ''\<newline>'' @
     ''    if (success) {\<newline>'' @
     ''      return LayerResult.success(\<newline>'' @
     ''        processedText: processedText,\<newline>'' @
     ''        debugInfo: debugInfo,\<newline>'' @
     ''      );\<newline>'' @
     ''    } else {\<newline>'' @
     ''      return LayerResult.error(\<newline>'' @
     ''        originalText: processedText,\<newline>'' @
     ''        errorMessage: error ?? 'Unknown error',\<newline>'' @
     ''        debugInfo: debugInfo,\<newline>'' @
     ''      );\<newline>'' @
     ''    }\<newline>'' @
     ''  }''"

definition replace_createResult_method :: "string \<Rightarrow> string" where
  "replace_createResult_method content =
     (case re_search pat_createResult_method content of
        None \<Rightarrow> content
      | Some old_create_result \<Rightarrow>
          str_replace (matched_text old_create_result) new_create_result content)"

subsection \<open>The transformation of one file's text\<close>

text \<open>
  The body of \<open>fix_layer_file\<close> between reading and writing. An exception raised by a
  \<open>re.sub\<close> call ends the function, so the calls are chained with \<open>bind_err\<close>.
\<close>

definition bind_err :: "error + 'a \<Rightarrow> ('a \<Rightarrow> error + 'b) \<Rightarrow> error + 'b" where
  "bind_err r f = (case r of Inl e \<Rightarrow> Inl e | Inr x \<Rightarrow> f x)"

definition pattern_rules :: "string \<Rightarrow> string \<Rightarrow> string \<Rightarrow> string \<Rightarrow> error + string" where
  "pattern_rules layer_name layer_description layer_priority content0 =
     bind_err (re_sub pat_import_result [] content0) (\<lambda>content1.
     bind_err (re_sub pat_import_exceptions [] content1) (\<lambda>content2.
     bind_err (re_sub pat_description
                 (repl_description layer_description layer_priority) content2) (\<lambda>content3.
     bind_err (re_sub pat_canHandle new_canHandle content3) (\<lambda>content4.
     bind_err (re_sub pat_process new_process content4) (\<lambda>content5.
     bind_err (re_sub pat_debugInfo repl_debugInfo content5) (\<lambda>content6.
     bind_err (re_sub pat_currentText repl_currentText content6) (\<lambda>content7.
     bind_err (re_sub pat_createResult_call repl_createResult_call content7) (\<lambda>content8.
     re_sub pat_details repl_details content8))))))))"

definition fix_content :: "string \<Rightarrow> string \<Rightarrow> string \<Rightarrow> string \<Rightarrow> error + string" where
  "fix_content layer_name layer_description layer_priority content =
     bind_err (pattern_rules layer_name layer_description layer_priority content)
       (\<lambda>content9. Inr (replace_createResult_method content9))"

section \<open>The driver: read, transform, write back\<close>

text \<open>
  The world of the script: the text files by path, the log of the writes done so far and
  the lines printed. A file that cannot be opened or decoded for reading is absent from
  \<open>files\<close>; the text of a file is what \<open>f.read()\<close> returns. Opening the file for
  writing and writing it are taken to succeed; the write replaces the whole content.
\<close>

record world =
  files :: "string \<rightharpoonup> string"
  writes :: "(string \<times> string) list"
  console :: "string list"

definition print_line :: "string \<Rightarrow> world \<Rightarrow> world" where
  "print_line l w = w\<lparr>console := console w @ [l]\<rparr>"

definition write_file :: "string \<Rightarrow> string \<Rightarrow> world \<Rightarrow> world" where
  "write_file path content w =
     w\<lparr>files := (files w)(path \<mapsto> content), writes := writes w @ [(path, content)]\<rparr>"

definition fix_layer_file ::
  "string \<Rightarrow> string \<Rightarrow> string \<Rightarrow> string \<Rightarrow> world \<Rightarrow> (error + unit) \<times> world" where
  "fix_layer_file file_path layer_name layer_description layer_priority w =
     (let w1 = print_line (''Fixing '' @ file_path @ ''...'') w in
      case files w1 file_path of
        None \<Rightarrow> (Inl OpenForReadingError, w1)
      | Some content \<Rightarrow>
          (case fix_content layer_name layer_description layer_priority content of
             Inl e \<Rightarrow> (Inl e, w1)
           | Inr content' \<Rightarrow>
               (Inr (), print_line (''Fixed '' @ file_path) (write_file file_path content' w1))))"

text \<open>\<open>main\<close> fixes the two layers in turn; an exception in the first ends the run.\<close>

definition post_processing_path :: string where
  "post_processing_path = ''lib/src/layers/post_processing_layer.dart''"

definition post_processing_description :: string where
  "post_processing_description =
     ''Post-processing layer: final text formatting, capitalization, punctuation, and quality assessment''"

definition word_order_path :: string where
  "word_order_path = ''lib/src/layers/word_order_layer.dart''"

definition word_order_description :: string where
  "word_order_description =
     ''Word order layer: reorders words according to target language syntax (SVO, SOV, VSO, etc.)''"

definition main :: "world \<Rightarrow> (error + unit) \<times> world" where
  "main w =
     (case fix_layer_file post_processing_path ''PostProcessingLayer''
             post_processing_description ''postProcessing'' w of
        (Inl e, w1) \<Rightarrow> (Inl e, w1)
      | (Inr u, w1) \<Rightarrow>
          (case fix_layer_file word_order_path ''WordOrderLayer''
                  word_order_description ''wordOrder'' w1 of
             (Inl e, w2) \<Rightarrow> (Inl e, w2)
           | (Inr u2, w2) \<Rightarrow> (Inr (), print_line ''All layers have been fixed!'' w2)))"

section \<open>Notions used in the statements\<close>

text \<open>
  The nine patterns of the \<open>re.sub\<close> calls in the order of the script; a text in which
  none of them matches anywhere; and a replacement string that \<open>re\<close> can compile for a
  pattern.
\<close>

definition rule_patterns :: "rx list list" where
  "rule_patterns =
     [pat_import_result, pat_import_exceptions, pat_description, pat_canHandle, pat_process,
      pat_debugInfo, pat_currentText, pat_createResult_call, pat_details]"

definition no_rule_matches :: "string \<Rightarrow> bool" where
  "no_rule_matches content = list_all (\<lambda>p. re_search p content = None) rule_patterns"

definition valid_template :: "rx list \<Rightarrow> string \<Rightarrow> bool" where
  "valid_template p repl =
     (case parse_template (rx_groups p) repl of Inl e \<Rightarrow> False | Inr t \<Rightarrow> True)"

text \<open>\<open>match_start p s\<close> is \<open>re.search(p, s).start()\<close> when the search finds a match.\<close>

fun match_start :: "rx list \<Rightarrow> string \<Rightarrow> nat" where
  "match_start p [] = 0"
| "match_start p (c # cs) =
     (case rx_match p (c # cs) of Some m \<Rightarrow> 0 | None \<Rightarrow> Suc (match_start p cs))"

text \<open>
  A string is border-free when no proper non-empty suffix of it is also a prefix of it:
  two occurrences of such a string in a text cannot overlap.
\<close>

definition border_free :: "string \<Rightarrow> bool" where
  "border_free l = list_all (\<lambda>k. \<not> prefix (drop k l) l) [1..<length l]"

text \<open>
  \<open>clash_free p r\<close>: an occurrence of \<open>p\<close> in a text cannot begin inside a copy of \<open>r\<close>.
\<close>

definition clash_free :: "string \<Rightarrow> string \<Rightarrow> bool" where
  "clash_free p r = list_all (\<lambda>k. \<not> prefix p (drop k r) \<and> \<not> prefix (drop k r) p) [0..<length r]"

text \<open>The apostrophe, which delimits the message of a result-construction call.\<close>

definition quote :: char where
  "quote = CHR 0x27"




section \<open>Concrete texts and worlds\<close>

text \<open>
  A result-construction method in the old shape whose body holds a conditional, so that
  the body has a closing brace before the one that ends the method.
\<close>

definition nested_method :: string where
  "nested_method =
     ''LayerResult _createResult(bool success) {\<newline>'' @
     ''    if (success) {\<newline>'' @
     ''      return ok;\<newline>'' @
     ''    }\<newline>'' @
     ''    return failed;\<newline>'' @
     ''  }''"

text \<open>The shortest old-shape method the block matcher matches.\<close>

definition short_method :: string where
  "short_method = ''LayerResult _createResult() {}''"

text \<open>Two old-shape methods with different bodies.\<close>

definition two_methods :: string where
  "two_methods =
     ''LayerResult _createResult(a) {x}\<newline>LayerResult _createResult(b) {y}''"




text \<open>A text that holds the getter anchor.\<close>

definition text_with_anchor :: string where
  "text_with_anchor =
     ''class PostProcessingLayer {\<newline>  '' @ description_anchor @ ''\<newline>}\<newline>''"

text \<open>
  What the script makes of \<open>text_with_anchor\<close> when the description is \<open>\1\<close>: the
  anchor itself stands between the quotes of the description getter.
\<close>

definition anchor_quoted_text :: string where
  "anchor_quoted_text =
     ''class PostProcessingLayer {\<newline>'' @
     ''  @override\<newline>'' @
     ''  String get name => layerName;\<newline>'' @
     ''\<newline>'' @
     ''  @override\<newline>'' @
     ''  String get description => '' @ [CHR 0x27] @ description_anchor @ [CHR 0x27] @ '';\<newline>'' @
     ''\<newline>'' @
     ''  @override\<newline>'' @
     ''  LayerPriority get priority => LayerPriority.wordOrder;\<newline>'' @
     ''}\<newline>''"

text \<open>A text in the migrated shape that none of the script's patterns matches.\<close>

definition migrated_snippet :: string where
  "migrated_snippet =
     ''class WordOrderLayer {\<newline>'' @
     ''  bool canHandle(String text, TranslationContext context) => true;\<newline>'' @
     ''}\<newline>''"

text \<open>
  A text that no pattern of the script matches, alone in a world of one file; and a world
  without files.
\<close>

definition plain_text :: string where
  "plain_text = ''class A {}\<newline>''"

definition one_file_world :: world where
  "one_file_world = \<lparr>files = [''a.dart'' \<mapsto> plain_text], writes = [], console = []\<rparr>"

definition empty_world :: world where
  "empty_world = \<lparr>files = Map.empty, writes = [], console = []\<rparr>"


section \<open>Facts about the matcher and the scanning loops\<close>

subsection \<open>The matcher\<close>

text \<open>
  A match consumes a prefix of the text; a pattern that matches a text matches every text
  that begins with what it consumed (backtracking finds that match or one of higher
  priority); a run of literal characters matches exactly where it is a prefix.
\<close>

lemma matched_text_append: "matched_text (a @ b) = matched_text a @ matched_text b"
  by (induction a rule: matched_text.induct) simp_all

lemma matched_text_chars: "matched_text (map MChar s) = s"
  by (induction s) simp_all

lemma rx_match_prefix: "rx_match p s = Some m \<Longrightarrow> prefix (matched_text m) s"
proof (induction p s arbitrary: m rule: rx_match.induct)
  case (9 k r x xs)
  then show ?case by (auto split: if_splits option.splits)
next
  case (11 k r x xs)
  then show ?case by (auto split: if_splits option.splits)
qed (auto split: if_splits)

lemma rx_match_star_fallback:
  "rx_match r s \<noteq> None \<Longrightarrow> rx_match (RStar k # r) s \<noteq> None"
  by (cases s) (auto split: option.splits)

lemma rx_match_lazy_fallback:
  "rx_match r s \<noteq> None \<Longrightarrow> rx_match (RStarLazy k # r) s \<noteq> None"
  by (cases s) (auto split: option.splits)

lemma rx_match_extend:
  "rx_match p s = Some m \<Longrightarrow> rx_match p (matched_text m @ s') \<noteq> None"
proof (induction p s arbitrary: m rule: rx_match.induct)
  case (9 k r x xs)
  show ?case
  proof (cases "in_class k x")
    case True
    show ?thesis
    proof (cases "rx_match (RStar k # r) xs")
      case None
      with 9 True have "rx_match r (matched_text m @ s') \<noteq> None" by simp
      then show ?thesis by (rule rx_match_star_fallback)
    next
      case (Some m1)
      with 9 True have "m = MChar x # m1" by simp
      moreover from 9(1) [OF True Some] have "rx_match (RStar k # r) (matched_text m1 @ s') \<noteq> None" .
      ultimately show ?thesis using True by (auto split: option.splits)
    qed
  next
    case False
    with 9 have "rx_match r (matched_text m @ s') \<noteq> None" by simp
    then show ?thesis by (rule rx_match_star_fallback)
  qed
next
  case (10 k r)
  then have "rx_match r (matched_text m @ s') \<noteq> None" by simp
  then show ?case by (rule rx_match_lazy_fallback)
next
  case (11 k r x xs)
  show ?case
  proof (cases "rx_match r (x # xs)")
    case (Some m0)
    with 11 have "rx_match r (matched_text m @ s') \<noteq> None" by simp
    then show ?thesis by (rule rx_match_lazy_fallback)
  next
    case None
    with 11 obtain m1 where a: "in_class k x" "rx_match (RStarLazy k # r) xs = Some m1" "m = MChar x # m1"
      by (auto split: if_splits)
    from 11(2) [OF None a(1) a(2)] have "rx_match (RStarLazy k # r) (matched_text m1 @ s') \<noteq> None" .
    with a show ?thesis by (auto split: option.splits)
  qed
next
  case (8 k r)
  then have "rx_match r (matched_text m @ s') \<noteq> None" by simp
  then show ?case by (rule rx_match_star_fallback)
qed (auto split: if_splits)

lemma rx_match_nonempty:
  assumes "rx_match p [] = None" and "rx_match p s = Some m"
  shows "matched_text m \<noteq> []"
proof
  assume "matched_text m = []"
  with rx_match_extend [OF assms(2), of "[]"] assms(1) show False by simp
qed

lemma rx_match_lit:
  "rx_match (lit l @ r) s =
     (if prefix l s then map_option ((@) (map MChar l)) (rx_match r (drop (length l) s)) else None)"
proof (induction l arbitrary: s)
  case Nil
  then show ?case by (simp add: lit_def option.map_ident cong: option.map_cong)
next
  case (Cons a l)
  show ?case
  proof (cases s)
    case Nil
    then show ?thesis by (simp add: lit_def)
  next
    case (Cons x xs)
    with Cons.IH [of xs] show ?thesis
      by (auto simp: lit_def option.map_comp comp_def)
  qed
qed

lemma rx_match_lit_only:
  "rx_match (lit l) s = (if prefix l s then Some (map MChar l) else None)"
  using rx_match_lit [of l "[]" s] by simp

lemma rx_match_lit_Nil: "l \<noteq> [] \<Longrightarrow> rx_match (lit l) [] = None"
  by (cases l) (simp_all add: lit_def)

subsection \<open>The scan of re.sub\<close>

text \<open>
  Without a match the scan copies the text. The scan of a text splits at a position when
  every match that starts before the position is the same with and without the text
  behind it.
\<close>

lemma sub_scan_no_match: "re_search p s = None \<Longrightarrow> sub_scan p t s = s"
  by (induction s) (auto split: option.splits)





subsection \<open>Replacement templates\<close>

lemma expand_template_lits: "expand_template (map TLit r) m = r"
  by (induction r) (simp_all add: expand_template_def)

lemma expand_template_append:
  "expand_template (a @ b) m = expand_template a m @ expand_template b m"
  by (simp add: expand_template_def)

lemma expand_template_group: "expand_template [TGroup k] m = group_text k m"
  by (simp add: expand_template_def)

lemma group_body_chars: "group_body 0 (map MChar s @ MClose # m) = s"
  by (induction s) simp_all

lemma group_text_skip_chars: "group_text (Suc k) (map MChar h @ m) = group_text (Suc k) m"
  by (induction h) simp_all

lemma parse_template_plain:
  "backslash \<notin> set s \<Longrightarrow> parse_template g s = Inr (map TLit s)"
  by (induction s) auto


lemma re_sub_no_match:
  "valid_template p repl \<Longrightarrow> re_search p s = None \<Longrightarrow> re_sub p repl s = Inr s"
  by (auto simp: valid_template_def re_sub_def sub_scan_no_match split: sum.splits)




text \<open>A replacement string without a backslash is taken literally, so it is valid.\<close>

lemma valid_template_plain: "backslash \<notin> set repl \<Longrightarrow> valid_template p repl"
  by (simp add: valid_template_def parse_template_plain)


lemma constant_templates_valid:
  "valid_template pat_import_result []"
  "valid_template pat_import_exceptions []"
  "valid_template pat_canHandle new_canHandle"
  "valid_template pat_process new_process"
  "valid_template pat_debugInfo repl_debugInfo"
  "valid_template pat_currentText repl_currentText"
  "valid_template pat_createResult_call repl_createResult_call"
  "valid_template pat_details repl_details"
  by code_simp+

subsection \<open>Rules with a literal pattern and a literal replacement\<close>






text \<open>\<open>str_contains\<close> is the sublist relation of the library.\<close>

lemma str_contains_sublist: "str_contains n s \<longleftrightarrow> sublist n s"
  by (induction s) (auto simp: sublist_Cons_right)


lemma str_contains_skip:
  assumes "\<forall>k<length r. \<not> prefix p (drop k r) \<and> \<not> prefix (drop k r) p"
  shows "str_contains p (r @ z) = str_contains p z"
  using assms
proof (induction r)
  case Nil
  then show ?case by simp
next
  case (Cons x r)
  from Cons.prems [rule_format, of 0] have a: "\<not> prefix p (x # r)" "\<not> prefix (x # r) p" by simp_all
  have "\<forall>k<length r. \<not> prefix p (drop k r) \<and> \<not> prefix (drop k r) p"
  proof (intro allI impI)
    fix k assume "k < length r"
    with Cons.prems [rule_format, of "Suc k"] show "\<not> prefix p (drop k r) \<and> \<not> prefix (drop k r) p" by simp
  qed
  from Cons.IH [OF this] have ih: "str_contains p (r @ z) = str_contains p z" .
  have "\<not> prefix p ((x # r) @ z)"
  proof
    assume "prefix p ((x # r) @ z)"
    then have "prefix p (x # r) \<or> prefix (x # r) p"
      by (metis prefix_append prefix_def)
    with a show False by simp
  qed
  with ih show ?case by simp
qed

lemma str_contains_clash_free:
  "clash_free p r \<Longrightarrow> str_contains p (r @ z) = str_contains p z"
  by (rule str_contains_skip) (simp add: clash_free_def list_all_iff)






subsection \<open>The description rule\<close>

lemma rx_match_description:
  "rx_match pat_description s =
     (if prefix description_anchor s
      then Some (MOpen # map MChar description_anchor @ [MClose]) else None)"
  using rx_match_lit [of description_anchor "[RClose]" s]
  by (simp add: pat_description_def)

lemma description_anchor_facts:
  "description_anchor \<noteq> []" "border_free description_anchor"
  by code_simp+



subsection \<open>The rule for the calls of the helper\<close>

text \<open>
  A greedy run of characters other than the apostrophe, followed by a literal that begins
  with the apostrophe, takes the text up to the next apostrophe: backtracking cannot help.
\<close>

lemma rx_match_star_until:
  "rx_match (RStar (CNot q) # RClose # lit (q # l)) s =
     (if prefix (q # l) (dropWhile (\<lambda>x. x \<noteq> q) s)
      then Some (map MChar (takeWhile (\<lambda>x. x \<noteq> q) s) @ MClose # map MChar (q # l))
      else None)"
proof (induction s)
  case Nil
  then show ?case by (simp add: lit_def)
next
  case (Cons x xs)
  show ?case
  proof (cases "x = q")
    case True
    then show ?thesis
      using rx_match_lit_only [of "q # l" "q # xs"] by simp
  next
    case False
    then have "rx_match (RClose # lit (q # l)) (x # xs) = None" by (simp add: lit_def)
    with False Cons show ?thesis by simp
  qed
qed

lemma rx_match_plus_until:
  "rx_match (RPlus (CNot q) # RClose # lit (q # l)) s =
     (if takeWhile (\<lambda>x. x \<noteq> q) s \<noteq> [] \<and> prefix (q # l) (dropWhile (\<lambda>x. x \<noteq> q) s)
      then Some (map MChar (takeWhile (\<lambda>x. x \<noteq> q) s) @ MClose # map MChar (q # l))
      else None)"
proof (cases s)
  case Nil
  then show ?thesis by simp
next
  case (Cons x xs)
  then show ?thesis by (simp add: rx_match_star_until)
qed

lemma call_tail_quote: "call_tail = quote # '');''"
  by (simp add: call_tail_def quote_def)

lemma rx_match_call:
  "rx_match pat_createResult_call s =
     (if prefix old_call_head s
         \<and> takeWhile (\<lambda>x. x \<noteq> quote) (drop (length old_call_head) s) \<noteq> []
         \<and> prefix call_tail (dropWhile (\<lambda>x. x \<noteq> quote) (drop (length old_call_head) s))
      then Some (map MChar old_call_head @ MOpen #
                 map MChar (takeWhile (\<lambda>x. x \<noteq> quote) (drop (length old_call_head) s)) @
                 MClose # map MChar call_tail)
      else None)"
proof -
  have eq: "pat_createResult_call =
      lit old_call_head @ ROpen # RPlus (CNot quote) # RClose # lit (quote # '');'')"
    by (simp add: pat_createResult_call_def call_tail_quote quote_def)
  show ?thesis
    unfolding eq rx_match_lit rx_match.simps rx_match_plus_until call_tail_quote
    by (auto simp: Let_def)
qed

lemma old_call_head_facts:
  "old_call_head \<noteq> []" "border_free old_call_head"
  "quote \<notin> set (butlast old_call_head)" "last old_call_head = quote"
  "hd old_call_head \<notin> set call_tail"
  by code_simp+





lemma expand_call_template:
  "expand_template (map TLit new_call_head @ [TGroup 1] @ map TLit call_tail)
     (map MChar old_call_head @ MOpen # map MChar msg @ MClose # map MChar call_tail)
   = new_call_head @ msg @ call_tail"
proof -
  have "group_text 1 (map MChar old_call_head @ MOpen # map MChar msg @ MClose # map MChar call_tail)
      = msg"
    by (simp add: group_text_skip_chars group_body_chars)
  then show ?thesis
    by (simp only: expand_template_append expand_template_lits expand_template_group)
qed

lemma call_pattern_Nil: "rx_match pat_createResult_call [] = None"
  using old_call_head_facts(1) by (simp add: rx_match_call)


subsection \<open>Texts that no rule matches\<close>

lemma pattern_rules_no_match:
  assumes "no_rule_matches content"
    and "valid_template pat_description (repl_description layer_description layer_priority)"
  shows "pattern_rules layer_name layer_description layer_priority content = Inr content"
proof -
  from assms(1) have none:
    "re_search pat_import_result content = None"
    "re_search pat_import_exceptions content = None"
    "re_search pat_description content = None"
    "re_search pat_canHandle content = None"
    "re_search pat_process content = None"
    "re_search pat_debugInfo content = None"
    "re_search pat_currentText content = None"
    "re_search pat_createResult_call content = None"
    "re_search pat_details content = None"
    by (simp_all add: no_rule_matches_def rule_patterns_def)
  show ?thesis
    by (simp add: pattern_rules_def bind_err_def re_sub_no_match none constant_templates_valid assms(2))
qed

subsection \<open>Searching a long text\<close>









subsection \<open>str.replace and the replacement of the method\<close>

lemma str_replace_hit:
  "old \<noteq> [] \<Longrightarrow> str_replace old new (old @ rest) = new @ str_replace old new rest"
  by (cases old) simp_all

lemma str_replace_absent: "\<not> str_contains old s \<Longrightarrow> str_replace old new s = s"
  by (induction s) auto

lemma str_replace_first:
  assumes "old \<noteq> []"
    and "\<forall>i<length pre. \<not> prefix old (drop i pre @ old @ rest)"
  shows "str_replace old new (pre @ old @ rest) = pre @ new @ str_replace old new rest"
  using assms(2)
proof (induction pre)
  case Nil
  with assms(1) show ?case by (simp add: str_replace_hit)
next
  case (Cons x pre)
  from Cons.prems [rule_format, of 0] have "\<not> prefix old (x # pre @ old @ rest)" by simp
  moreover have "\<forall>i<length pre. \<not> prefix old (drop i pre @ old @ rest)"
  proof (intro allI impI)
    fix i assume "i < length pre"
    with Cons.prems [rule_format, of "Suc i"] show "\<not> prefix old (drop i pre @ old @ rest)" by simp
  qed
  ultimately show ?case using Cons.IH assms(1) by simp
qed

lemma re_search_start:
  "re_search p s = Some m \<Longrightarrow>
     rx_match p (drop (match_start p s) s) = Some m \<and> match_start p s \<le> length s
     \<and> (\<forall>i<match_start p s. rx_match p (drop i s) = None)"
proof (induction s)
  case Nil
  then show ?case by simp
next
  case (Cons c cs)
  show ?case
  proof (cases "rx_match p (c # cs)")
    case None
    with Cons have ih: "rx_match p (drop (match_start p cs) cs) = Some m"
      "match_start p cs \<le> length cs" "\<forall>i<match_start p cs. rx_match p (drop i cs) = None"
      by simp_all
    have "rx_match p (drop i (c # cs)) = None" if "i < Suc (match_start p cs)" for i
      using that None ih(3) by (cases i) simp_all
    with None ih show ?thesis by simp
  next
    case (Some m')
    with Cons.prems show ?thesis by simp
  qed
qed

lemma method_pattern_Nil: "rx_match pat_createResult_method [] = None"
  by code_simp





subsection \<open>Texts in the migrated shape\<close>

text \<open>
  A pattern that matches somewhere matches each of its parts somewhere behind, so a text
  without one literal piece of a pattern has no match of the pattern. The last lemmas let
  the simplifier run a substring test over a long literal text.
\<close>

lemma lit_append: "lit (a @ b) = lit a @ lit b"
  by (simp add: lit_def)

















subsection \<open>The description rule among the other rules\<close>


subsection \<open>Occurrences of a text before and after a rule\<close>

lemma str_contains_left: "str_contains n u \<Longrightarrow> str_contains n (u @ w)"
  unfolding str_contains_sublist by (auto simp: sublist_def) (metis append.assoc)

lemma str_contains_right: "str_contains n w \<Longrightarrow> str_contains n (u @ w)"
  unfolding str_contains_sublist by (auto simp: sublist_def) (metis append.assoc)

lemma str_contains_mid: "str_contains n v \<Longrightarrow> str_contains n (u @ v @ w)"
  by (rule str_contains_right, rule str_contains_left)

text \<open>
  No occurrence of \<open>n\<close> overlaps a copy of \<open>l\<close> when \<open>n\<close> cannot begin inside \<open>l\<close> and \<open>l\<close>
  cannot begin inside \<open>n\<close>.
\<close>

lemma str_contains_around:
  assumes "clash_free n l" and "clash_free l n"
  shows "str_contains n (u @ l @ w) \<Longrightarrow> str_contains n u \<or> str_contains n w"
proof (induction u)
  case Nil
  with assms(1) show ?case by (simp add: str_contains_clash_free)
next
  case (Cons x u)
  from Cons.prems have "prefix n (x # u @ l @ w) \<or> str_contains n (u @ l @ w)" by simp
  then show ?case
  proof
    assume "prefix n (x # u @ l @ w)"
    then have p: "prefix n ((x # u) @ (l @ w))" by simp
    show ?thesis
    proof (cases "prefix n (x # u)")
      case True
      then show ?thesis by simp
    next
      case False
      from p have "prefix n (x # u) \<or> (\<exists>us. n = (x # u) @ us \<and> prefix us (l @ w))"
        by (simp only: prefix_append)
      with False obtain n' where n: "n = (x # u) @ n'" and q: "prefix n' (l @ w)" by blast
      from False n have ne: "n' \<noteq> []" by auto
      from n have d: "drop (length (x # u)) n = n'" by simp
      from n ne have k: "length (x # u) < length n" by simp
      from q have "prefix n' l \<or> prefix l n'" by (metis prefix_append prefix_def)
      moreover from assms(2) k have "\<not> prefix l (drop (length (x # u)) n)
          \<and> \<not> prefix (drop (length (x # u)) n) l"
        by (auto simp: clash_free_def list_all_iff)
      ultimately show ?thesis using d by simp
    qed
  next
    assume "str_contains n (u @ l @ w)"
    with Cons.IH show ?thesis by auto
  qed
qed

text \<open>
  A rule creates no occurrence of \<open>n\<close> when an occurrence in a text around a replacement
  lies before it, behind it, or was in the matched text already; it keeps an occurrence
  when an occurrence in a text around a match lies before it, behind it, or is in the
  replacement too.
\<close>

lemma sub_scan_creates_no:
  assumes nil: "rx_match p [] = None"
    and step: "\<And>s m u w. rx_match p s = Some m \<Longrightarrow>
        str_contains n (u @ expand_template t m @ w) \<Longrightarrow>
        str_contains n u \<or> str_contains n w \<or> str_contains n (matched_text m)"
  shows "str_contains n (u @ sub_scan p t s) \<Longrightarrow> str_contains n (u @ s)"
proof (induction s arbitrary: u rule: length_induct)
  case (1 s)
  show ?case
  proof (cases s)
    case Nil
    with 1(2) nil show ?thesis by simp
  next
    case (Cons x xs)
    show ?thesis
    proof (cases "rx_match p (x # xs)")
      case None
      with 1(2) Cons have "str_contains n ((u @ [x]) @ sub_scan p t xs)" by simp
      with 1(1) [rule_format, of xs "u @ [x]"] Cons have "str_contains n ((u @ [x]) @ xs)"
        by simp
      with Cons show ?thesis by simp
    next
      case (Some m)
      let ?mt = "matched_text m"
      from rx_match_nonempty [OF nil Some] have ne: "?mt \<noteq> []" .
      from rx_match_prefix [OF Some] obtain rest where split: "x # xs = ?mt @ rest"
        by (auto simp: prefix_def)
      with ne have rest: "drop (length ?mt - 1) xs = rest"
        by (cases ?mt) auto
      from split ne have shorter: "length rest < length s" using Cons
        by (metis length_append length_greater_0_conv less_add_same_cancel2)
      from 1(2) Cons Some ne rest
      have "str_contains n (u @ expand_template t m @ sub_scan p t rest)" by simp
      from step [OF Some this]
      consider "str_contains n u" | "str_contains n (sub_scan p t rest)" | "str_contains n ?mt"
        by blast
      then show ?thesis
      proof cases
        case 1
        then show ?thesis by (rule str_contains_left)
      next
        case 2
        then have "str_contains n ([] @ sub_scan p t rest)" by simp
        with 1(1) [rule_format, of rest "[]"] shorter have "str_contains n ([] @ rest)" by blast
        then have "str_contains n rest" by simp
        then have "str_contains n (u @ ?mt @ rest)"
          by (intro str_contains_right)
        with split Cons show ?thesis by simp
      next
        case 3
        then have "str_contains n (u @ ?mt @ rest)" by (rule str_contains_mid)
        with split Cons show ?thesis by simp
      qed
    qed
  qed
qed

lemma sub_scan_keeps:
  assumes nil: "rx_match p [] = None"
    and step: "\<And>s m u w. rx_match p s = Some m \<Longrightarrow>
        str_contains n (u @ matched_text m @ w) \<Longrightarrow>
        str_contains n u \<or> str_contains n w \<or> str_contains n (expand_template t m)"
  shows "str_contains n (u @ s) \<Longrightarrow> str_contains n (u @ sub_scan p t s)"
proof (induction s arbitrary: u rule: length_induct)
  case (1 s)
  show ?case
  proof (cases s)
    case Nil
    with 1(2) nil show ?thesis by simp
  next
    case (Cons x xs)
    show ?thesis
    proof (cases "rx_match p (x # xs)")
      case None
      from 1(2) Cons have "str_contains n ((u @ [x]) @ xs)" by simp
      with 1(1) [rule_format, of xs "u @ [x]"] Cons
      have "str_contains n ((u @ [x]) @ sub_scan p t xs)" by simp
      with None Cons show ?thesis by simp
    next
      case (Some m)
      let ?mt = "matched_text m"
      from rx_match_nonempty [OF nil Some] have ne: "?mt \<noteq> []" .
      from rx_match_prefix [OF Some] obtain rest where split: "x # xs = ?mt @ rest"
        by (auto simp: prefix_def)
      with ne have rest: "drop (length ?mt - 1) xs = rest"
        by (cases ?mt) auto
      from split ne have shorter: "length rest < length s" using Cons
        by (metis length_append length_greater_0_conv less_add_same_cancel2)
      from Cons Some ne rest
      have out: "sub_scan p t s = expand_template t m @ sub_scan p t rest" by simp
      from 1(2) Cons split have "str_contains n (u @ ?mt @ rest)" by simp
      from step [OF Some this]
      consider "str_contains n u" | "str_contains n rest" | "str_contains n (expand_template t m)"
        by blast
      then show ?thesis
      proof cases
        case 1
        then show ?thesis by (rule str_contains_left)
      next
        case 2
        then have "str_contains n ([] @ rest)" by simp
        with 1(1) [rule_format, of rest "[]"] shorter
        have "str_contains n ([] @ sub_scan p t rest)" by blast
        then have "str_contains n (sub_scan p t rest)" by simp
        then show ?thesis unfolding out by (intro str_contains_right)
      next
        case 3
        then show ?thesis unfolding out by (rule str_contains_mid)
      qed
    qed
  qed
qed

subsection \<open>The shape of a match\<close>

text \<open>
  What a match of a pattern looks like, item by item, and from that the matched text and
  the expansion of the template for the rules with a pattern that is not a literal.
\<close>

lemma rx_match_lit_shape:
  assumes "rx_match (lit l @ r) s = Some m"
  obtains m' where "m = map MChar l @ m'" and "rx_match r (drop (length l) s) = Some m'"
  using assms by (auto simp: rx_match_lit split: if_splits)

lemma rx_match_open_shape:
  assumes "rx_match (ROpen # r) s = Some m"
  obtains m' where "m = MOpen # m'" and "rx_match r s = Some m'"
  using assms by auto

lemma rx_match_close_shape:
  assumes "rx_match (RClose # r) s = Some m"
  obtains m' where "m = MClose # m'" and "rx_match r s = Some m'"
  using assms by auto

lemma rx_match_class_shape:
  assumes "rx_match (RClass k # r) s = Some m"
  obtains x m' where "m = MChar x # m'" and "rx_match r (tl s) = Some m'"
  using assms by (cases s) (auto split: if_splits)

lemma rx_match_star_shape_aux:
  "rx_match (RStar k # r) s = Some m \<Longrightarrow>
     \<exists>g m' s'. m = map MChar g @ m' \<and> list_all (in_class k) g \<and> rx_match r s' = Some m'"
proof (induction s arbitrary: m)
  case Nil
  then have "rx_match r [] = Some m" by simp
  then have "m = map MChar [] @ m \<and> list_all (in_class k) [] \<and> rx_match r [] = Some m" by simp
  then show ?case by blast
next
  case (Cons x xs)
  show ?case
  proof (cases "in_class k x \<and> rx_match (RStar k # r) xs \<noteq> None")
    case True
    then obtain m1 where m1: "rx_match (RStar k # r) xs = Some m1" by auto
    with Cons.prems True have m: "m = MChar x # m1" by simp
    from Cons.IH [OF m1] obtain g m' s' where
      "m1 = map MChar g @ m'" "list_all (in_class k) g" "rx_match r s' = Some m'" by blast
    with m True have "m = map MChar (x # g) @ m' \<and> list_all (in_class k) (x # g)
        \<and> rx_match r s' = Some m'" by simp
    then show ?thesis by blast
  next
    case False
    with Cons.prems have "rx_match r (x # xs) = Some m" by (auto split: if_splits option.splits)
    then have "m = map MChar [] @ m \<and> list_all (in_class k) [] \<and> rx_match r (x # xs) = Some m"
      by simp
    then show ?thesis by blast
  qed
qed

lemma rx_match_star_shape:
  assumes "rx_match (RStar k # r) s = Some m"
  obtains g m' s' where "m = map MChar g @ m'" and "list_all (in_class k) g"
    and "rx_match r s' = Some m'"
  using rx_match_star_shape_aux [OF assms] by blast

lemma rx_match_plus_shape:
  assumes "rx_match (RPlus k # r) s = Some m"
  obtains g m' s' where "m = map MChar g @ m'" and "list_all (in_class k) g"
    and "rx_match r s' = Some m'"
proof -
  from assms obtain x xs m1 where s: "s = x # xs" and c: "in_class k x"
    and m1: "rx_match (RStar k # r) xs = Some m1" and m: "m = MChar x # m1"
    by (cases s) (auto split: if_splits)
  from rx_match_star_shape_aux [OF m1] obtain g m' s' where
    "m1 = map MChar g @ m'" "list_all (in_class k) g" "rx_match r s' = Some m'" by blast
  with m c have "m = map MChar (x # g) @ m'" "list_all (in_class k) (x # g)"
    "rx_match r s' = Some m'" by simp_all
  then show ?thesis by (rule that)
qed

lemma rx_match_lit_end_shape:
  assumes "rx_match (lit l) s = Some m"
  shows "m = map MChar l"
  using assms by (auto simp: rx_match_lit_only split: if_splits)

lemma details_match_shape:
  assumes "rx_match pat_details s = Some m"
  obtains k v where
    "m = map MChar (''debugInfo.details['' @ [CHR 0x27]) @ MOpen # map MChar k @ MClose #
         map MChar ([CHR 0x27] @ ''] = '') @ MOpen # map MChar v @ MClose # map MChar '';''"
proof -
  from assms have r0: "rx_match (lit (''debugInfo.details['' @ [CHR 0x27]) @ ROpen # RPlus (CNot (CHR 0x27)) # RClose # lit ([CHR 0x27] @ ''] = '') @ ROpen # RPlus (CNot (CHR '';'')) # RClose # lit '';'') s = Some m"
    by (simp add: pat_details_def)
  from r0 obtain m1 s1 where 1: "m = map MChar (''debugInfo.details['' @ [CHR 0x27]) @ m1"
    and r1: "rx_match (ROpen # RPlus (CNot (CHR 0x27)) # RClose # lit ([CHR 0x27] @ ''] = '') @ ROpen # RPlus (CNot (CHR '';'')) # RClose # lit '';'') s1 = Some m1"
    by (rule rx_match_lit_shape)
  from r1 obtain m2 where 2: "m1 = MOpen # m2"
    and r2: "rx_match (RPlus (CNot (CHR 0x27)) # RClose # lit ([CHR 0x27] @ ''] = '') @ ROpen # RPlus (CNot (CHR '';'')) # RClose # lit '';'') s1 = Some m2"
    by (rule rx_match_open_shape)
  from r2 obtain k m3 s3 where 3: "m2 = map MChar k @ m3"
    and c3: "list_all (in_class (CNot (CHR 0x27))) k"
    and r3: "rx_match (RClose # lit ([CHR 0x27] @ ''] = '') @ ROpen # RPlus (CNot (CHR '';'')) # RClose # lit '';'') s3 = Some m3"
    by (rule rx_match_plus_shape)
  from r3 obtain m4 where 4: "m3 = MClose # m4"
    and r4: "rx_match (lit ([CHR 0x27] @ ''] = '') @ ROpen # RPlus (CNot (CHR '';'')) # RClose # lit '';'') s3 = Some m4"
    by (rule rx_match_close_shape)
  from r4 obtain m5 s5 where 5: "m4 = map MChar ([CHR 0x27] @ ''] = '') @ m5"
    and r5: "rx_match (ROpen # RPlus (CNot (CHR '';'')) # RClose # lit '';'') s5 = Some m5"
    by (rule rx_match_lit_shape)
  from r5 obtain m6 where 6: "m5 = MOpen # m6"
    and r6: "rx_match (RPlus (CNot (CHR '';'')) # RClose # lit '';'') s5 = Some m6"
    by (rule rx_match_open_shape)
  from r6 obtain v m7 s7 where 7: "m6 = map MChar v @ m7"
    and c7: "list_all (in_class (CNot (CHR '';''))) v"
    and r7: "rx_match (RClose # lit '';'') s7 = Some m7"
    by (rule rx_match_plus_shape)
  from r7 obtain m8 where 8: "m7 = MClose # m8"
    and r8: "rx_match (lit '';'') s7 = Some m8"
    by (rule rx_match_close_shape)
  from r8 have 9: "m8 = map MChar '';''" by (rule rx_match_lit_end_shape)
  from 1 2 3 4 5 6 7 8 9 show ?thesis by (intro that [of k v]) simp
qed

lemma parse_details_template:
  "parse_template (rx_groups pat_details) repl_details
     = Inr (map TLit ''// '' @ [TGroup 1] @ map TLit '': '' @ [TGroup 2] @
            map TLit '' (moved to additionalInfo)'')"
  by code_simp

lemma group_text_2_skip_chars:
  "group_text (Suc (Suc j)) (map MChar h @ m) = group_text (Suc (Suc j)) m"
  by (induction h) simp_all

lemma expand_details_template:
  "expand_template (map TLit ''// '' @ [TGroup 1] @ map TLit '': '' @ [TGroup 2] @
            map TLit '' (moved to additionalInfo)'')
     (map MChar h @ MOpen # map MChar k @ MClose # map MChar d @ MOpen # map MChar v @ MClose #
      map MChar e)
   = ''// '' @ k @ '': '' @ v @ '' (moved to additionalInfo)''"
proof -
  let ?m = "map MChar h @ MOpen # map MChar k @ MClose # map MChar d @ MOpen # map MChar v @
      MClose # map MChar e"
  have 1: "group_text 1 ?m = k"
    by (simp add: group_text_skip_chars group_body_chars)
  have "group_text (Suc (Suc 0)) ?m = group_text (Suc 0) (map MChar k @ MClose # map MChar d @
      MOpen # map MChar v @ MClose # map MChar e)"
    by (simp add: group_text_2_skip_chars)
  also have "\<dots> = group_text (Suc 0) (map MChar d @ MOpen # map MChar v @ MClose # map MChar e)"
    using group_text_skip_chars [of 0 k] by simp
  also have "\<dots> = v"
    using group_text_skip_chars [of 0 d] by (simp add: group_body_chars)
  finally have 2: "group_text 2 ?m = v" by (simp add: numeral_2_eq_2)
  show ?thesis
    by (simp only: expand_template_append expand_template_lits expand_template_group 1 2)
qed

lemma debugInfo_match_shape:
  assumes "rx_match pat_debugInfo s = Some m"
  obtains w1 w2 w3 where
    "matched_text m = ''final debugInfo = LayerDebugInfo('' @ w1 @ ''layerName: name,'' @ w2 @
         ''startTime: DateTime.now(),'' @ w3 @ '');''"
    and "list_all is_space w1" and "list_all is_space w2" and "list_all is_space w3"
proof -
  from assms have r0: "rx_match (lit ''final debugInfo = LayerDebugInfo('' @ RStar CSpace # lit ''layerName: name,'' @ RStar CSpace # lit ''startTime: DateTime.now(),'' @ RStar CSpace # lit '');'') s = Some m"
    by (simp add: pat_debugInfo_def)
  from r0 obtain m1 s1 where 1: "m = map MChar ''final debugInfo = LayerDebugInfo('' @ m1"
    and r1: "rx_match (RStar CSpace # lit ''layerName: name,'' @ RStar CSpace # lit ''startTime: DateTime.now(),'' @ RStar CSpace # lit '');'') s1 = Some m1"
    by (rule rx_match_lit_shape)
  from r1 obtain w1 m2 s2 where 2: "m1 = map MChar w1 @ m2"
    and c2: "list_all (in_class CSpace) w1"
    and r2: "rx_match (lit ''layerName: name,'' @ RStar CSpace # lit ''startTime: DateTime.now(),'' @ RStar CSpace # lit '');'') s2 = Some m2"
    by (rule rx_match_star_shape)
  from r2 obtain m3 s3 where 3: "m2 = map MChar ''layerName: name,'' @ m3"
    and r3: "rx_match (RStar CSpace # lit ''startTime: DateTime.now(),'' @ RStar CSpace # lit '');'') s3 = Some m3"
    by (rule rx_match_lit_shape)
  from r3 obtain w2 m4 s4 where 4: "m3 = map MChar w2 @ m4"
    and c4: "list_all (in_class CSpace) w2"
    and r4: "rx_match (lit ''startTime: DateTime.now(),'' @ RStar CSpace # lit '');'') s4 = Some m4"
    by (rule rx_match_star_shape)
  from r4 obtain m5 s5 where 5: "m4 = map MChar ''startTime: DateTime.now(),'' @ m5"
    and r5: "rx_match (RStar CSpace # lit '');'') s5 = Some m5"
    by (rule rx_match_lit_shape)
  from r5 obtain w3 m6 s6 where 6: "m5 = map MChar w3 @ m6"
    and c6: "list_all (in_class CSpace) w3"
    and r6: "rx_match (lit '');'') s6 = Some m6"
    by (rule rx_match_star_shape)
  from r6 have 7: "m6 = map MChar '');''" by (rule rx_match_lit_end_shape)
  from 1 2 3 4 5 6 7 have "matched_text m = ''final debugInfo = LayerDebugInfo('' @ w1 @
      ''layerName: name,'' @ w2 @ ''startTime: DateTime.now(),'' @ w3 @ '');''"
    by (simp add: matched_text_append matched_text_chars)
  moreover from c2 c4 c6 have "list_all is_space w1" "list_all is_space w2" "list_all is_space w3"
    by (simp_all add: list_all_iff)
  ultimately show ?thesis by (rule that)
qed

lemma import_match_shape:
  assumes "rx_match (lit a @ [RClass k1, RClass k2] @ lit r) s = Some m"
  obtains x y where "matched_text m = a @ x # y # r"
proof -
  from assms have r0: "rx_match (lit a @ RClass k1 # RClass k2 # lit r) s = Some m" by simp
  from r0 obtain m1 s1 where 1: "m = map MChar a @ m1"
    and r1: "rx_match (RClass k1 # RClass k2 # lit r) s1 = Some m1"
    by (rule rx_match_lit_shape)
  from r1 obtain x m2 where 2: "m1 = MChar x # m2"
    and r2: "rx_match (RClass k2 # lit r) (tl s1) = Some m2"
    by (rule rx_match_class_shape)
  from r2 obtain y m3 where 3: "m2 = MChar y # m3"
    and r3: "rx_match (lit r) (tl (tl s1)) = Some m3"
    by (rule rx_match_class_shape)
  from r3 have 4: "m3 = map MChar r" by (rule rx_match_lit_end_shape)
  from 1 2 3 4 have "matched_text m = a @ x # y # r"
    by (simp add: matched_text_append matched_text_chars)
  then show ?thesis by (rule that)
qed

subsection \<open>Rules that keep a text and rules that do not create it\<close>

text \<open>
  For each kind of rule of the script: conditions on a text \<open>n\<close> under which the rule
  creates no occurrence of \<open>n\<close>, and conditions under which it keeps one.
\<close>

lemma str_contains_skip_chars:
  assumes "n \<noteq> []" and "hd n \<notin> set z"
  shows "str_contains n (z @ w) \<Longrightarrow> str_contains n w"
  using assms(2)
proof (induction z)
  case Nil
  then show ?case by simp
next
  case (Cons x z)
  from Cons.prems(2) assms(1) have "\<not> prefix n (x # z @ w)" by (cases n) auto
  with Cons show ?case by simp
qed

lemma literal_template_creates_no:
  assumes "rx_match p [] = None" and "clash_free n r" and "clash_free r n"
    and "str_contains n (sub_scan p (map TLit r) s)"
  shows "str_contains n s"
proof -
  have step: "str_contains n u \<or> str_contains n w \<or> str_contains n (matched_text m)"
    if "rx_match p s = Some m" and "str_contains n (u @ expand_template (map TLit r) m @ w)"
    for s m u w
  proof -
    from that(2) have "str_contains n (u @ r @ w)" by (simp add: expand_template_lits)
    from str_contains_around [OF assms(2,3) this] show ?thesis by blast
  qed
  from sub_scan_creates_no [where u = "[]" and s = s, OF assms(1) step] assms(4) show ?thesis by simp
qed

lemma literal_pattern_keeps:
  assumes "l \<noteq> []" and "clash_free n l" and "clash_free l n" and "str_contains n s"
  shows "str_contains n (sub_scan (lit l) t s)"
proof -
  have step: "str_contains n u \<or> str_contains n w \<or> str_contains n (expand_template t m)"
    if "rx_match (lit l) s = Some m" and "str_contains n (u @ matched_text m @ w)" for s m u w
  proof -
    from that(1) have "matched_text m = l"
      by (auto simp: rx_match_lit_only matched_text_chars split: if_splits)
    with that(2) have "str_contains n (u @ l @ w)" by simp
    from str_contains_around [OF assms(2,3) this] show ?thesis by blast
  qed
  from sub_scan_keeps [where u = "[]" and s = s, OF rx_match_lit_Nil [OF assms(1)] step] assms(4)
  show ?thesis by simp
qed

lemma description_rule_keeps:
  assumes "clash_free n description_anchor" and "clash_free description_anchor n"
    and "str_contains n s"
  shows "str_contains n (sub_scan pat_description t s)"
proof -
  have nil: "rx_match pat_description [] = None"
    by (simp add: rx_match_description description_anchor_facts)
  have step: "str_contains n u \<or> str_contains n w \<or> str_contains n (expand_template t m)"
    if "rx_match pat_description s = Some m" and "str_contains n (u @ matched_text m @ w)"
    for s m u w
  proof -
    from that(1) have "matched_text m = description_anchor"
      by (auto simp: rx_match_description matched_text_append matched_text_chars split: if_splits)
    with that(2) have "str_contains n (u @ description_anchor @ w)" by simp
    from str_contains_around [OF assms(1,2) this] show ?thesis by blast
  qed
  from sub_scan_keeps [where u = "[]" and s = s, OF nil step] assms(3) show ?thesis by simp
qed

lemma import_rule_keeps:
  assumes "a \<noteq> []" and "clash_free n a" and "clash_free a n"
    and tail: "\<And>x y w. str_contains n (x # y # r @ w) \<Longrightarrow> str_contains n w"
    and "str_contains n s"
  shows "str_contains n (sub_scan (lit a @ [RClass k1, RClass k2] @ lit r) t s)"
proof -
  let ?p = "lit a @ [RClass k1, RClass k2] @ lit r"
  from assms(1) have nil: "rx_match ?p [] = None" by (simp add: rx_match_lit)
  have step: "str_contains n u \<or> str_contains n w \<or> str_contains n (expand_template t m)"
    if "rx_match ?p s = Some m" and "str_contains n (u @ matched_text m @ w)" for s m u w
  proof -
    from that(1) obtain x y where "matched_text m = a @ x # y # r" by (rule import_match_shape)
    with that(2) have "str_contains n (u @ a @ (x # y # r @ w))" by simp
    from str_contains_around [OF assms(2,3) this] tail show ?thesis by blast
  qed
  from sub_scan_keeps [where u = "[]" and s = s, OF nil step] assms(5) show ?thesis by simp
qed

lemma debugInfo_rule_keeps:
  assumes "n \<noteq> []" and "\<not> is_space (hd n)"
    and "hd n \<notin> set ''layerName: name,startTime: DateTime.now(),);''"
    and "clash_free n ''final debugInfo = LayerDebugInfo(''"
    and "clash_free ''final debugInfo = LayerDebugInfo('' n"
    and "str_contains n s"
  shows "str_contains n (sub_scan pat_debugInfo t s)"
proof -
  have nil: "rx_match pat_debugInfo [] = None" by (simp add: pat_debugInfo_def rx_match_lit)
  have step: "str_contains n u \<or> str_contains n w \<or> str_contains n (expand_template t m)"
    if "rx_match pat_debugInfo s = Some m" and "str_contains n (u @ matched_text m @ w)"
    for s m u w
  proof -
    from that(1) obtain w1 w2 w3 where
      mt: "matched_text m = ''final debugInfo = LayerDebugInfo('' @
        w1 @ ''layerName: name,'' @ w2 @ ''startTime: DateTime.now(),'' @ w3 @ '');''"
      and ws: "list_all is_space w1" "list_all is_space w2" "list_all is_space w3"
      by (rule debugInfo_match_shape)
    let ?z = "w1 @ ''layerName: name,'' @ w2 @ ''startTime: DateTime.now(),'' @ w3 @ '');''"
    from ws assms(2) have "hd n \<notin> set w1" "hd n \<notin> set w2" "hd n \<notin> set w3"
      by (auto simp: list_all_iff)
    with assms(3) have z: "hd n \<notin> set ?z" by auto
    from that(2) mt have "str_contains n (u @ ''final debugInfo = LayerDebugInfo('' @ (?z @ w))"
      by simp
    from str_contains_around [OF assms(4,5) this]
    have "str_contains n u \<or> str_contains n (?z @ w)" .
    with str_contains_skip_chars [OF assms(1) z] show ?thesis by blast
  qed
  from sub_scan_keeps [where u = "[]" and s = s, OF nil step] assms(6) show ?thesis by simp
qed


lemma call_match_shape:
  assumes "rx_match pat_createResult_call s = Some m"
  obtains g where
    "m = map MChar old_call_head @ MOpen # map MChar g @ MClose # map MChar call_tail"
  using assms by (auto simp: rx_match_call split: if_splits)

lemma str_contains_framed:
  assumes "clash_free n a" and "clash_free a n" and "clash_free n b" and "clash_free b n"
    and "str_contains n (u @ a @ g @ b @ w)"
  shows "str_contains n u \<or> str_contains n g \<or> str_contains n w"
proof -
  from str_contains_around [OF assms(1,2,5)]
  have "str_contains n u \<or> str_contains n (g @ b @ w)" .
  with str_contains_around [OF assms(3,4), of g w] show ?thesis by blast
qed

lemma call_rule_creates_no:
  assumes "clash_free n new_call_head" and "clash_free new_call_head n"
    and "clash_free n call_tail" and "clash_free call_tail n"
    and "str_contains n (sub_scan pat_createResult_call
           (map TLit new_call_head @ [TGroup 1] @ map TLit call_tail) s)"
  shows "str_contains n s"
proof -
  let ?t = "map TLit new_call_head @ [TGroup 1] @ map TLit call_tail"
  have step: "str_contains n u \<or> str_contains n w \<or> str_contains n (matched_text m)"
    if "rx_match pat_createResult_call s = Some m"
      and "str_contains n (u @ expand_template ?t m @ w)" for s m u w
  proof -
    from that(1) obtain g where
      m: "m = map MChar old_call_head @ MOpen # map MChar g @ MClose # map MChar call_tail"
      by (rule call_match_shape)
    from that(2) have "str_contains n (u @ new_call_head @ g @ call_tail @ w)"
      unfolding m expand_call_template by simp
    from str_contains_framed [OF assms(1,2,3,4) this]
    have "str_contains n u \<or> str_contains n g \<or> str_contains n w" .
    moreover have "str_contains n g \<Longrightarrow> str_contains n (matched_text m)"
      unfolding m using str_contains_mid [of n g old_call_head call_tail]
      by (simp add: matched_text_append matched_text_chars)
    ultimately show ?thesis by blast
  qed
  from sub_scan_creates_no [where u = "[]" and s = s, OF call_pattern_Nil step] assms(5)
  show ?thesis by simp
qed

lemma call_rule_keeps:
  assumes "clash_free n old_call_head" and "clash_free old_call_head n"
    and "clash_free n call_tail" and "clash_free call_tail n"
    and "str_contains n s"
  shows "str_contains n (sub_scan pat_createResult_call
           (map TLit new_call_head @ [TGroup 1] @ map TLit call_tail) s)"
proof -
  let ?t = "map TLit new_call_head @ [TGroup 1] @ map TLit call_tail"
  have step: "str_contains n u \<or> str_contains n w \<or> str_contains n (expand_template ?t m)"
    if "rx_match pat_createResult_call s = Some m"
      and "str_contains n (u @ matched_text m @ w)" for s m u w
  proof -
    from that(1) obtain g where
      m: "m = map MChar old_call_head @ MOpen # map MChar g @ MClose # map MChar call_tail"
      by (rule call_match_shape)
    from that(2) have "str_contains n (u @ old_call_head @ g @ call_tail @ w)"
      unfolding m by (simp add: matched_text_append matched_text_chars)
    from str_contains_framed [OF assms(1,2,3,4) this]
    have "str_contains n u \<or> str_contains n g \<or> str_contains n w" .
    moreover have "str_contains n g \<Longrightarrow> str_contains n (expand_template ?t m)"
      unfolding m expand_call_template by (rule str_contains_mid)
    ultimately show ?thesis by blast
  qed
  from sub_scan_keeps [where u = "[]" and s = s, OF call_pattern_Nil step] assms(5)
  show ?thesis by simp
qed

lemma details_pattern_Nil: "rx_match pat_details [] = None"
  by (simp add: pat_details_def rx_match_lit)

lemma details_rule_creates_no:
  assumes "clash_free n ''// ''" and "clash_free ''// '' n"
    and "clash_free n '': ''" and "clash_free '': '' n"
    and "clash_free n '' (moved to additionalInfo)''"
    and "clash_free '' (moved to additionalInfo)'' n"
    and "str_contains n (sub_scan pat_details
           (map TLit ''// '' @ [TGroup 1] @ map TLit '': '' @ [TGroup 2] @
            map TLit '' (moved to additionalInfo)'') s)"
  shows "str_contains n s"
proof -
  let ?t = "map TLit ''// '' @ [TGroup 1] @ map TLit '': '' @ [TGroup 2] @
            map TLit '' (moved to additionalInfo)''"
  have step: "str_contains n u \<or> str_contains n w \<or> str_contains n (matched_text m)"
    if "rx_match pat_details s = Some m"
      and "str_contains n (u @ expand_template ?t m @ w)" for s m u w
  proof -
    from that(1) obtain k v where
      m: "m = map MChar (''debugInfo.details['' @ [CHR 0x27]) @ MOpen # map MChar k @ MClose #
         map MChar ([CHR 0x27] @ ''] = '') @ MOpen # map MChar v @ MClose # map MChar '';''"
      by (rule details_match_shape)
    from that(2) have "str_contains n (u @ ''// '' @ k @ '': '' @ (v @ '' (moved to additionalInfo)'' @ w))"
      unfolding m expand_details_template by simp
    from str_contains_framed [OF assms(1,2,3,4) this]
    have "str_contains n u \<or> str_contains n k \<or> str_contains n (v @ '' (moved to additionalInfo)'' @ w)" .
    with str_contains_around [OF assms(5,6), of v w]
    have "str_contains n u \<or> str_contains n k \<or> str_contains n v \<or> str_contains n w" by blast
    moreover have "str_contains n k \<Longrightarrow> str_contains n (matched_text m)"
      unfolding m
      using str_contains_mid [of n k "''debugInfo.details['' @ [CHR 0x27]"
          "([CHR 0x27] @ ''] = '') @ v @ '';''"]
      by (simp add: matched_text_append matched_text_chars)
    moreover have "str_contains n v \<Longrightarrow> str_contains n (matched_text m)"
      unfolding m
      using str_contains_mid [of n v "(''debugInfo.details['' @ [CHR 0x27]) @ k @ [CHR 0x27] @ ''] = ''"
          "'';''"]
      by (simp add: matched_text_append matched_text_chars)
    ultimately show ?thesis by blast
  qed
  from sub_scan_creates_no [where u = "[]" and s = s, OF details_pattern_Nil step] assms(7)
  show ?thesis by simp
qed

lemma details_rule_keeps:
  assumes "clash_free n (''debugInfo.details['' @ [CHR 0x27])"
    and "clash_free (''debugInfo.details['' @ [CHR 0x27]) n"
    and "clash_free n ([CHR 0x27] @ ''] = '')" and "clash_free ([CHR 0x27] @ ''] = '') n"
    and "clash_free n '';''" and "clash_free '';'' n"
    and "str_contains n s"
  shows "str_contains n (sub_scan pat_details
           (map TLit ''// '' @ [TGroup 1] @ map TLit '': '' @ [TGroup 2] @
            map TLit '' (moved to additionalInfo)'') s)"
proof -
  let ?t = "map TLit ''// '' @ [TGroup 1] @ map TLit '': '' @ [TGroup 2] @
            map TLit '' (moved to additionalInfo)''"
  have step: "str_contains n u \<or> str_contains n w \<or> str_contains n (expand_template ?t m)"
    if "rx_match pat_details s = Some m"
      and "str_contains n (u @ matched_text m @ w)" for s m u w
  proof -
    from that(1) obtain k v where
      m: "m = map MChar (''debugInfo.details['' @ [CHR 0x27]) @ MOpen # map MChar k @ MClose #
         map MChar ([CHR 0x27] @ ''] = '') @ MOpen # map MChar v @ MClose # map MChar '';''"
      by (rule details_match_shape)
    from that(2) have "str_contains n (u @ (''debugInfo.details['' @ [CHR 0x27]) @ k @
        ([CHR 0x27] @ ''] = '') @ (v @ '';'' @ w))"
      unfolding m by (simp add: matched_text_append matched_text_chars)
    from str_contains_framed [OF assms(1,2,3,4) this]
    have "str_contains n u \<or> str_contains n k \<or> str_contains n (v @ '';'' @ w)" .
    with str_contains_around [OF assms(5,6), of v w]
    have "str_contains n u \<or> str_contains n k \<or> str_contains n v \<or> str_contains n w" by blast
    moreover have "str_contains n k \<Longrightarrow> str_contains n (expand_template ?t m)"
      unfolding m expand_details_template
      using str_contains_mid [of n k "''// ''" "'': '' @ v @ '' (moved to additionalInfo)''"]
      by simp
    moreover have "str_contains n v \<Longrightarrow> str_contains n (expand_template ?t m)"
      unfolding m expand_details_template
      using str_contains_mid [of n v "''// '' @ k @ '': ''" "'' (moved to additionalInfo)''"]
      by simp
    ultimately show ?thesis by blast
  qed
  from sub_scan_keeps [where u = "[]" and s = s, OF details_pattern_Nil step] assms(7)
  show ?thesis by simp
qed

section \<open>Properties\<close>

subsection \<open>C1: the end of the replaced method\<close>

text \<open>
  Claim C1 says that the replaced span ends at the brace that closes the method. The
  code ends it at the first closing brace after the signature: on \<open>nested_method\<close> the
  new block takes the place of the text up to the brace that closes the conditional, and
  the rest of the old method stays behind the new one.
\<close>

theorem nested_method_cut_at_first_closing_brace:
  "replace_createResult_method nested_method =
     new_create_result @ ''\<newline>    return failed;\<newline>  }''"
  by code_simp

subsection \<open>C2: running the script on migrated text\<close>




subsection \<open>C3: calls of the result-construction helper\<close>




subsection \<open>C4: texts without anchors\<close>

text \<open>
  Claim C4 says that a text with none of the anchor patterns comes back unchanged. The
  replacement string of the description rule is compiled by \<open>re.sub\<close> before the text is
  looked at, so with a description such as \<open>\q\<close> the run raises although nothing in the
  text matches.
\<close>

theorem malformed_description_raises_without_anchor:
  "no_rule_matches plain_text
   \<and> re_search pat_createResult_method plain_text = None
   \<and> fix_content ''A'' [backslash, CHR ''q''] ''c'' plain_text = Inl ReplTemplateError"
  by code_simp

text \<open>
  Claim C4, amended. When no pattern of the nine rules and no block matcher matches
  anywhere in the text, and the description and the priority label give a replacement
  string that \<open>re\<close> can compile (as every description and label without a backslash
  do), the whole transformation returns the text unchanged, character for character.
\<close>

theorem no_anchor_no_change:
  assumes "no_rule_matches content"
    and "re_search pat_createResult_method content = None"
    and "valid_template pat_description (repl_description layer_description layer_priority)"
  shows "fix_content layer_name layer_description layer_priority content = Inr content"
  using pattern_rules_no_match [OF assms(1,3)] assms(2)
  by (simp add: fix_content_def bind_err_def replace_createResult_method_def)

theorem no_anchor_no_change_witness:
  "no_rule_matches migrated_snippet
   \<and> re_search pat_createResult_method migrated_snippet = None
   \<and> valid_template pat_description (repl_description word_order_description ''wordOrder'')
   \<and> fix_content ''WordOrderLayer'' word_order_description ''wordOrder'' migrated_snippet
       = Inr migrated_snippet"
proof -
  have h1: "no_rule_matches migrated_snippet" by code_simp
  have h2: "re_search pat_createResult_method migrated_snippet = None" by code_simp
  have h3: "valid_template pat_description (repl_description word_order_description ''wordOrder'')"
    by code_simp
  from no_anchor_no_change [OF h1 h2 h3] h1 h2 h3 show ?thesis by simp
qed

subsection \<open>C5: more than one match of the block matcher\<close>

text \<open>
  Claim C5 says that only the first occurrence is replaced and every later occurrence of
  the matched text stays. The code takes the text of the first match and calls
  \<open>str.replace\<close> with it, which replaces every occurrence of that text: of two identical
  methods both are replaced.
\<close>

theorem identical_later_copy_is_replaced:
  "replace_createResult_method (short_method @ ''\<newline>'' @ short_method)
     = new_create_result @ ''\<newline>'' @ new_create_result"
  by code_simp

text \<open>
  Claim C5, amended. When the block matcher matches, the text of the leftmost match is
  replaced by the new block where it was found and the text before it is kept; the text
  after it is treated by \<open>str.replace\<close>, so every occurrence of the matched text there is
  replaced as well, and when the matched text does not occur there, the text after the
  match is kept as it is.
\<close>

theorem first_match_text_replaced_everywhere:
  assumes "re_search pat_createResult_method content = Some m"
  shows "replace_createResult_method content =
           take (match_start pat_createResult_method content) content
           @ new_create_result
           @ str_replace (matched_text m) new_create_result
               (drop (match_start pat_createResult_method content + length (matched_text m)) content)
       \<and> (\<not> str_contains (matched_text m)
             (drop (match_start pat_createResult_method content + length (matched_text m)) content)
         \<longrightarrow> replace_createResult_method content =
           take (match_start pat_createResult_method content) content
           @ new_create_result
           @ drop (match_start pat_createResult_method content + length (matched_text m)) content)"
proof -
  let ?p = pat_createResult_method
  let ?k = "match_start ?p content"
  let ?old = "matched_text m"
  let ?pre = "take ?k content"
  let ?rest = "drop (?k + length ?old) content"
  from re_search_start [OF assms] have at: "rx_match ?p (drop ?k content) = Some m"
    and le: "?k \<le> length content"
    and before: "\<forall>i<?k. rx_match ?p (drop i content) = None" by simp_all
  from rx_match_nonempty [OF method_pattern_Nil at] have ne: "?old \<noteq> []" .
  from rx_match_prefix [OF at] obtain z where z: "drop ?k content = ?old @ z"
    by (auto simp: prefix_def)
  then have "?rest = z"
    by (metis add.commute append_eq_conv_conj drop_drop)
  with z have split: "content = ?pre @ ?old @ ?rest"
    by (metis append_take_drop_id)
  have "\<forall>i<length ?pre. \<not> prefix ?old (drop i ?pre @ ?old @ ?rest)"
  proof (intro allI impI)
    fix i assume i: "i < length ?pre"
    then have ik: "i < ?k" by simp
    have d: "drop i ?pre @ ?old @ ?rest = drop i content"
      using split i by (metis drop_append less_imp_le_nat diff_is_0_eq' drop_0)
    show "\<not> prefix ?old (drop i ?pre @ ?old @ ?rest)"
    proof
      assume "prefix ?old (drop i ?pre @ ?old @ ?rest)"
      with d obtain z' where "drop i content = ?old @ z'" by (auto simp: prefix_def)
      with rx_match_extend [OF at, of z'] have "rx_match ?p (drop i content) \<noteq> None" by simp
      with before ik show False by simp
    qed
  qed
  from str_replace_first [OF ne this, of new_create_result]
  have "str_replace ?old new_create_result (?pre @ ?old @ ?rest)
      = ?pre @ new_create_result @ str_replace ?old new_create_result ?rest" .
  with split have r: "str_replace ?old new_create_result content
      = ?pre @ new_create_result @ str_replace ?old new_create_result ?rest" by simp
  with assms have "replace_createResult_method content =
      ?pre @ new_create_result @ str_replace ?old new_create_result ?rest"
    by (simp add: replace_createResult_method_def)
  then show ?thesis by (simp add: str_replace_absent)
qed

theorem first_match_text_replaced_everywhere_witness:
  "re_search pat_createResult_method two_methods
     = Some (map MChar ''LayerResult _createResult(a) {x}'')
   \<and> replace_createResult_method two_methods
       = new_create_result @ ''\<newline>LayerResult _createResult(b) {y}''"
proof -
  have h: "re_search pat_createResult_method two_methods
     = Some (map MChar ''LayerResult _createResult(a) {x}'')" by code_simp
  have a: "\<not> str_contains (matched_text (map MChar ''LayerResult _createResult(a) {x}''))
     (drop (match_start pat_createResult_method two_methods
        + length (matched_text (map MChar ''LayerResult _createResult(a) {x}''))) two_methods)"
    by code_simp
  have k: "match_start pat_createResult_method two_methods = 0" by code_simp
  from first_match_text_replaced_everywhere [OF h] a have
    "replace_createResult_method two_methods =
       take (match_start pat_createResult_method two_methods) two_methods
       @ new_create_result
       @ drop (match_start pat_createResult_method two_methods
           + length (matched_text (map MChar ''LayerResult _createResult(a) {x}''))) two_methods"
    by blast
  then have "replace_createResult_method two_methods =
       new_create_result @ drop (length ''LayerResult _createResult(a) {x}'') two_methods"
    unfolding k matched_text_chars by simp
  then show ?thesis using h by (simp add: two_methods_def)
qed

subsection \<open>C6: the canHandle signature\<close>


subsection \<open>C7: the inserted description getter\<close>




subsection \<open>C8: a failure before the write\<close>

text \<open>
  Claim C8. When a run of \<open>fix_layer_file\<close> fails (the file cannot be read, or a
  \<open>re.sub\<close> call raises), the files on disk are as they were before the run and nothing
  has been written: the text is transformed in memory and the only write is the last
  step.
\<close>

theorem failure_leaves_files_unchanged:
  "fix_layer_file file_path layer_name layer_description layer_priority w = (Inl e, w')
   \<Longrightarrow> files w' = files w \<and> writes w' = writes w"
  by (auto simp: fix_layer_file_def print_line_def Let_def split: option.splits sum.splits)

theorem failure_leaves_files_unchanged_witness:
  "fst (fix_layer_file ''missing.dart'' ''A'' ''B'' ''c'' empty_world) = Inl OpenForReadingError
   \<and> files (snd (fix_layer_file ''missing.dart'' ''A'' ''B'' ''c'' empty_world)) = files empty_world
   \<and> writes (snd (fix_layer_file ''missing.dart'' ''A'' ''B'' ''c'' empty_world)) = []"
proof -
  obtain w' where r: "fix_layer_file ''missing.dart'' ''A'' ''B'' ''c'' empty_world
      = (Inl OpenForReadingError, w')"
    by (simp add: fix_layer_file_def print_line_def empty_world_def)
  from failure_leaves_files_unchanged [OF r] r show ?thesis
    by (simp add: empty_world_def)
qed

subsection \<open>C9: escapes in the description\<close>

text \<open>
  Claim C9. There are descriptions with a backslash for which the rule-application step
  does not insert the description as it was supplied. With the description \<open>\2\<close> the
  step raises, and so does the whole transformation (the pattern of the description rule
  has one group only). With the description \<open>\1\<close> the step returns a text in which
  the matched anchor stands between the quotes of the description getter, and the
  description that was supplied is nowhere in it.
\<close>

theorem description_escapes_are_interpreted:
  "pattern_rules ''WordOrderLayer'' [backslash, CHR ''2''] ''wordOrder'' text_with_anchor
     = Inl ReplTemplateError
   \<and> fix_content ''WordOrderLayer'' [backslash, CHR ''2''] ''wordOrder'' text_with_anchor
     = Inl ReplTemplateError
   \<and> pattern_rules ''WordOrderLayer'' [backslash, CHR ''1''] ''wordOrder'' text_with_anchor
     = Inr anchor_quoted_text
   \<and> fix_content ''WordOrderLayer'' [backslash, CHR ''1''] ''wordOrder'' text_with_anchor
     = Inr anchor_quoted_text
   \<and> \<not> str_contains [backslash, CHR ''1''] anchor_quoted_text"
  by code_simp

subsection \<open>C10: the write-back\<close>

text \<open>
  Claim C10. A run of \<open>fix_layer_file\<close> that reads its file and gets through the
  transformation always writes the file back: the run succeeds, the write of the
  transformed text is the next entry of the write log, and the file holds that text. No
  comparison with the text that was read is made; the witness is a file that no rule and
  no block matcher matches, whose unchanged text is written all the same.
\<close>

theorem write_back_is_unconditional:
  "files w file_path = Some content \<Longrightarrow>
   fix_content layer_name layer_description layer_priority content = Inr content' \<Longrightarrow>
   fst (fix_layer_file file_path layer_name layer_description layer_priority w) = Inr ()
   \<and> writes (snd (fix_layer_file file_path layer_name layer_description layer_priority w))
       = writes w @ [(file_path, content')]
   \<and> files (snd (fix_layer_file file_path layer_name layer_description layer_priority w))
       = (files w)(file_path \<mapsto> content')"
  by (simp add: fix_layer_file_def print_line_def write_file_def Let_def)

theorem write_back_is_unconditional_witness:
  "files one_file_world ''a.dart'' = Some plain_text
   \<and> fix_content ''A'' ''B'' ''c'' plain_text = Inr plain_text
   \<and> fst (fix_layer_file ''a.dart'' ''A'' ''B'' ''c'' one_file_world) = Inr ()
   \<and> writes (snd (fix_layer_file ''a.dart'' ''A'' ''B'' ''c'' one_file_world))
       = [(''a.dart'', plain_text)]"
proof -
  have f: "files one_file_world ''a.dart'' = Some plain_text"
    by (simp add: one_file_world_def)
  have c: "fix_content ''A'' ''B'' ''c'' plain_text = Inr plain_text" by code_simp
  from write_back_is_unconditional [OF f c] f c show ?thesis
    by (simp add: one_file_world_def)
qed

end
